theory Spec2Isabelle
  imports Complex_Main
begin

section \<open>JavaScript numbers\<close>

text \<open>
  The hooks of \<^verbatim>\<open>App.jsx\<close> compute with JavaScript numbers. The finite values they
  produce in React state are integers (an index, a floored product); the remaining
  values a state can take are \<^verbatim>\<open>NaN\<close> and the two infinities. Timestamps, durations
  and targets are finite numbers, modelled as reals; the rounding of the arithmetic on
  them is written out where a property depends on it.
\<close>

datatype jsnum = Num int | NaN | PosInfinity | NegInfinity

text \<open>\<^verbatim>\<open>x + k\<close> for a finite integer \<open>k\<close>.\<close>

fun js_plus :: "jsnum \<Rightarrow> int \<Rightarrow> jsnum" where
  "js_plus (Num a) k = Num (a + k)"
| "js_plus x k = x"

text \<open>
  \<^verbatim>\<open>x % n\<close> for a finite integer \<open>n\<close>: the remainder takes the sign of the dividend,
  and is \<^verbatim>\<open>NaN\<close> when the divisor is zero or the dividend is not finite.
\<close>

fun js_rem :: "jsnum \<Rightarrow> int \<Rightarrow> jsnum" where
  "js_rem (Num a) n = (if n = 0 then NaN else Num (sgn a * (\<bar>a\<bar> mod \<bar>n\<bar>)))"
| "js_rem x n = NaN"

text \<open>\<^verbatim>\<open>x <= y\<close>: false when either side is \<^verbatim>\<open>NaN\<close>.\<close>

fun js_le :: "jsnum \<Rightarrow> jsnum \<Rightarrow> bool" where
  "js_le NaN y = False"
| "js_le x NaN = False"
| "js_le NegInfinity y = True"
| "js_le x PosInfinity = True"
| "js_le (Num a) (Num b) = (a \<le> b)"
| "js_le x y = False"

text \<open>\<open>js_int x\<close>: \<open>x\<close> is a finite integer.\<close>

fun js_int :: "jsnum \<Rightarrow> bool" where
  "js_int (Num a) = True"
| "js_int x = False"

section \<open>Rounding to a double\<close>

text \<open>
  Every arithmetic operation of the source rounds its exact result to a double.
  \<open>rounding rnd\<close> is what the proofs use of such a rounding function \<open>rnd\<close>: it is exact
  at 0 and at 1, and monotone on the non-negative numbers. A result too large for a
  double is \<^verbatim>\<open>Infinity\<close> in JavaScript; the only such result here is a quotient handed to
  \<^verbatim>\<open>Math.min(_, 1)\<close>, which yields 1 as it does for every rounded value above 1.
\<close>

definition rounding :: "(real \<Rightarrow> real) \<Rightarrow> bool" where
  "rounding rnd = (rnd 0 = 0 \<and> rnd 1 = 1 \<and> (\<forall>x y. 0 \<le> x \<and> x \<le> y \<longrightarrow> rnd x \<le> rnd y))"

text \<open>
  \<open>double\<close> is rounding to nearest, ties to even, with a significand of 53 bits: the
  rounding of IEEE 754 binary64 in its normal range (the exponent is not bounded here).
  \<open>binade x\<close> is the exponent \<open>k\<close> with \<open>2 powi k \<le> \<bar>x\<bar>\<close> and \<open>\<bar>x\<bar> < 2 powi (k + 1)\<close>.
\<close>

definition round_half_even :: "real \<Rightarrow> int" where
  "round_half_even x =
     (if x - of_int \<lfloor>x\<rfloor> < 1 / 2 then \<lfloor>x\<rfloor>
      else if 1 / 2 < x - of_int \<lfloor>x\<rfloor> then \<lfloor>x\<rfloor> + 1
      else if even \<lfloor>x\<rfloor> then \<lfloor>x\<rfloor> else \<lfloor>x\<rfloor> + 1)"

definition binade :: "real \<Rightarrow> int" where
  "binade x = \<lfloor>log 2 \<bar>x\<bar>\<rfloor>"

definition double :: "real \<Rightarrow> real" where
  "double x =
     (if x = 0 then 0
      else of_int (round_half_even (x / 2 powi (binade x - 52))) * 2 powi (binade x - 52))"

section \<open>The visibility tracker: \<^verbatim>\<open>useInView\<close>\<close>

text \<open>
  \<^verbatim>\<open>options\<close> is the object handed to the hook and on to the
  \<^verbatim>\<open>IntersectionObserver\<close>. The field \<^verbatim>\<open>once\<close> may be left out by the caller:
  \<open>None\<close> is JavaScript's \<^verbatim>\<open>undefined\<close>.
\<close>

record options =
  threshold :: real
  once :: "bool option"

text \<open>
  An observation is the first entry the observer delivers. The hook reads only
  \<^verbatim>\<open>entry.isIntersecting\<close>, the host's comparison of the visible fraction with the
  threshold.
\<close>

record entry =
  isIntersecting :: bool

text \<open>The two pieces of React state of the hook, both initially \<^verbatim>\<open>false\<close>.\<close>

record view_state =
  inView :: bool
  hasAnimated :: bool

definition useInView_init :: view_state where
  "useInView_init = \<lparr>inView = False, hasAnimated = False\<rparr>"

text \<open>
  The observer callback:
  \<^verbatim>\<open>
  if (entry.isIntersecting && !hasAnimated) { setInView(true); setHasAnimated(true); }
  else if (!entry.isIntersecting && options.once === false) { setInView(false); }
  \<close>
  The effect is re-run after every change of \<^verbatim>\<open>hasAnimated\<close>, so the callback
  sees the current state.
\<close>

definition observe :: "options \<Rightarrow> entry \<Rightarrow> view_state \<Rightarrow> view_state" where
  "observe opts e s =
     (if isIntersecting e \<and> \<not> hasAnimated s
      then s\<lparr>inView := True, hasAnimated := True\<rparr>
      else if \<not> isIntersecting e \<and> once opts = Some False
      then s\<lparr>inView := False\<rparr>
      else s)"

text \<open>A sequence of observation events, delivered in order.\<close>

definition observe_all :: "options \<Rightarrow> entry list \<Rightarrow> view_state \<Rightarrow> view_state" where
  "observe_all opts es s = fold (observe opts) es s"

section \<open>The image carousel of \<^verbatim>\<open>HomePage\<close>\<close>

text \<open>
  The component state is \<^verbatim>\<open>currentImageIndex\<close> (React state, initially 0) and
  \<^verbatim>\<open>intervalRef\<close> (a ref, initially \<^verbatim>\<open>null\<close>). The host's part is written out
  with it: \<open>timers\<close> are the active intervals, each with its handle and the time at
  which its callback is next due, \<open>nextTimer\<close> is the handle the next
  \<^verbatim>\<open>setInterval\<close> returns (handles are positive), and \<open>clock\<close> is the time in
  milliseconds since the component was mounted. Every interval of this component has
  the same callback and the same period of 5000 ms.
\<close>

record carousel =
  currentImageIndex :: jsnum
  intervalRef :: "nat option"
  timers :: "(nat \<times> nat) list"
  nextTimer :: nat
  clock :: nat

definition HomePage_init :: carousel where
  "HomePage_init =
     \<lparr>currentImageIndex = Num 0, intervalRef = None, timers = [], nextTimer = 1, clock = 0\<rparr>"

text \<open>\<^verbatim>\<open>(prevIndex + 1) % images.length\<close>\<close>

definition next_index :: "'a list \<Rightarrow> jsnum \<Rightarrow> jsnum" where
  "next_index images prevIndex = js_rem (js_plus prevIndex 1) (int (length images))"

text \<open>\<^verbatim>\<open>(prevIndex - 1 + images.length) % images.length\<close>\<close>

definition prev_index :: "'a list \<Rightarrow> jsnum \<Rightarrow> jsnum" where
  "prev_index images prevIndex =
     js_rem (js_plus (js_plus prevIndex (- 1)) (int (length images))) (int (length images))"

text \<open>The callback of the interval: \<^verbatim>\<open>setCurrentImageIndex(next_index)\<close>.\<close>

definition autoSlide :: "'a list \<Rightarrow> carousel \<Rightarrow> carousel" where
  "autoSlide images s = s\<lparr>currentImageIndex := next_index images (currentImageIndex s)\<rparr>"

text \<open>\<^verbatim>\<open>intervalRef.current = setInterval(..., 5000)\<close>\<close>

definition startAutoSlide :: "carousel \<Rightarrow> carousel" where
  "startAutoSlide s =
     s\<lparr>intervalRef := Some (nextTimer s),
       timers := timers s @ [(nextTimer s, clock s + 5000)],
       nextTimer := nextTimer s + 1\<rparr>"

definition clearInterval :: "nat \<Rightarrow> carousel \<Rightarrow> carousel" where
  "clearInterval h s = s\<lparr>timers := filter (\<lambda>(h', due). h' \<noteq> h) (timers s)\<rparr>"

text \<open>
  \<^verbatim>\<open>if (intervalRef.current) clearInterval(intervalRef.current); startAutoSlide();\<close>
  The test is JavaScript truthiness: \<^verbatim>\<open>null\<close> and the handle 0 are falsy.
\<close>

definition resetTimer :: "carousel \<Rightarrow> carousel" where
  "resetTimer s =
     startAutoSlide
       (case intervalRef s of
          None \<Rightarrow> s
        | Some h \<Rightarrow> if h = 0 then s else clearInterval h s)"

definition handlePrevClick :: "'a list \<Rightarrow> carousel \<Rightarrow> carousel" where
  "handlePrevClick images s =
     resetTimer (s\<lparr>currentImageIndex := prev_index images (currentImageIndex s)\<rparr>)"

definition handleNextClick :: "'a list \<Rightarrow> carousel \<Rightarrow> carousel" where
  "handleNextClick images s =
     resetTimer (s\<lparr>currentImageIndex := next_index images (currentImageIndex s)\<rparr>)"

text \<open>The effect run at mount: \<^verbatim>\<open>startAutoSlide()\<close>.\<close>

definition HomePage_mount :: carousel where
  "HomePage_mount = startAutoSlide HomePage_init"

text \<open>
  One millisecond passes. Every interval that is due at the new time runs its callback
  once and is due again 5000 ms later. \<open>due_count\<close> is the number of callbacks this
  step runs.
\<close>

definition due_count :: "carousel \<Rightarrow> nat" where
  "due_count s = length (filter (\<lambda>(h, due). due = clock s + 1) (timers s))"

definition tick :: "'a list \<Rightarrow> carousel \<Rightarrow> carousel" where
  "tick images s =
     (autoSlide images ^^ due_count s)
       (s\<lparr>clock := clock s + 1,
          timers := map (\<lambda>(h, due). if due = clock s + 1 then (h, due + 5000) else (h, due))
                      (timers s)\<rparr>)"

text \<open>What can happen to a mounted carousel, and a run of such events from the mount.\<close>

datatype event = Tick | PrevClick | NextClick

fun step :: "'a list \<Rightarrow> event \<Rightarrow> carousel \<Rightarrow> carousel" where
  "step images Tick s = tick images s"
| "step images PrevClick s = handlePrevClick images s"
| "step images NextClick s = handleNextClick images s"

definition run :: "'a list \<Rightarrow> event list \<Rightarrow> carousel \<Rightarrow> carousel" where
  "run images es s = fold (step images) es s"

text \<open>
  The actions a run performs, oldest first, each with the time at which it happens:
  the observation the timing claims are stated on.
\<close>

datatype action = AutoAdvance | ManualPrev | ManualNext

fun history :: "'a list \<Rightarrow> event list \<Rightarrow> carousel \<Rightarrow> (nat \<times> action) list" where
  "history images [] s = []"
| "history images (Tick # es) s =
     replicate (due_count s) (clock s + 1, AutoAdvance) @ history images es (tick images s)"
| "history images (PrevClick # es) s =
     (clock s, ManualPrev) # history images es (handlePrevClick images s)"
| "history images (NextClick # es) s =
     (clock s, ManualNext) # history images es (handleNextClick images s)"

text \<open>
  \<open>spaced t0 acts\<close>: every auto-advance of \<open>acts\<close> happens at least 5000 ms after the
  action before it (the mount, at \<open>t0\<close>, for the first).
\<close>

fun spaced :: "nat \<Rightarrow> (nat \<times> action) list \<Rightarrow> bool" where
  "spaced t0 [] = True"
| "spaced t0 ((t, a) # acts) =
     ((if a = AutoAdvance then t0 + 5000 \<le> t else True) \<and> spaced t acts)"

fun in_bounds :: "jsnum \<Rightarrow> int \<Rightarrow> bool" where
  "in_bounds (Num i) n = (0 \<le> i \<and> i < n)"
| "in_bounds x n = False"

text \<open>
  The shape of the timer state the proofs maintain: one active interval, due at \<open>due\<close>,
  whose handle is the truthy handle held in \<^verbatim>\<open>intervalRef\<close>.
\<close>

definition single_timer :: "carousel \<Rightarrow> nat \<Rightarrow> bool" where
  "single_timer s due =
     (\<exists>h. timers s = [(h, due)] \<and> intervalRef s = Some h \<and> h \<noteq> 0 \<and> nextTimer s \<noteq> 0)"

section \<open>The frame animator: \<^verbatim>\<open>useFrameAnimation\<close>\<close>

text \<open>
  \<open>valueSt\<close> is the React state \<^verbatim>\<open>value\<close> (initially 0) and \<open>startRef\<close> the ref
  \<^verbatim>\<open>startRef\<close> (initially \<^verbatim>\<open>null\<close>). \<open>cleanupFrame\<close> is the handle held by the
  cleanup function the last effect returned, if it returned one. The host's part:
  \<open>frames\<close> are the callbacks waiting for the next display refresh, each with its
  handle and the \<^verbatim>\<open>endValue\<close> and \<^verbatim>\<open>duration\<close> its closure holds, and \<open>nextFrame\<close>
  is the handle the next \<^verbatim>\<open>requestAnimationFrame\<close> returns.
\<close>

record animator =
  valueSt :: jsnum
  startRef :: "real option"
  cleanupFrame :: "nat option"
  frames :: "(nat \<times> real \<times> real) list"
  nextFrame :: nat

definition useFrameAnimation_init :: animator where
  "useFrameAnimation_init =
     \<lparr>valueSt = Num 0, startRef = None, cleanupFrame = None, frames = [], nextFrame = 1\<rparr>"

text \<open>\<^verbatim>\<open>requestAnimationFrame(animate)\<close>; the handle returned is \<open>nextFrame s\<close>.\<close>

definition requestAnimationFrame :: "real \<Rightarrow> real \<Rightarrow> animator \<Rightarrow> animator" where
  "requestAnimationFrame endValue duration s =
     s\<lparr>frames := frames s @ [(nextFrame s, endValue, duration)], nextFrame := nextFrame s + 1\<rparr>"

definition cancelAnimationFrame :: "nat \<Rightarrow> animator \<Rightarrow> animator" where
  "cancelAnimationFrame h s = s\<lparr>frames := filter (\<lambda>(h', c). h' \<noteq> h) (frames s)\<rparr>"

text \<open>
  The callback:
  \<^verbatim>\<open>
  if (!startRef.current) startRef.current = timestamp;
  const progress = timestamp - startRef.current;
  const ratio = Math.min(progress / duration, 1);
  setValue(Math.floor(ratio * endValue));
  if (ratio < 1) requestAnimationFrame(animate);
  \<close>
  \<^verbatim>\<open>!startRef.current\<close> holds for \<^verbatim>\<open>null\<close> and for a latched timestamp 0. For
  \<open>duration = 0\<close> the quotient is not a finite number: \<^verbatim>\<open>Infinity\<close> (then
  \<open>ratio = 1\<close>), \<^verbatim>\<open>NaN\<close> (then the value is \<^verbatim>\<open>NaN\<close> and \<^verbatim>\<open>ratio < 1\<close> is false) or
  \<^verbatim>\<open>-Infinity\<close> (then the value is the product of \<^verbatim>\<open>-Infinity\<close> and \<open>endValue\<close>).
  The arithmetic of \<open>animate\<close> is exact. It gives the values of the source wherever
  the operations of the source are exact, as they are at the start and at the end of a
  run; for the values in between, \<open>animate_rounded\<close> below rounds each operation.
\<close>

definition animate :: "real \<Rightarrow> real \<Rightarrow> real \<Rightarrow> animator \<Rightarrow> animator" where
  "animate endValue duration timestamp s =
     (let start = (case startRef s of
                     None \<Rightarrow> timestamp
                   | Some t \<Rightarrow> if t = 0 then timestamp else t);
          progress = timestamp - start;
          s1 = s\<lparr>startRef := Some start\<rparr>
      in if duration = 0 then
           (if 0 < progress then s1\<lparr>valueSt := Num \<lfloor>endValue\<rfloor>\<rparr>
            else if progress = 0 then s1\<lparr>valueSt := NaN\<rparr>
            else requestAnimationFrame endValue duration
                   (s1\<lparr>valueSt := (if 0 < endValue then NegInfinity
                                    else if endValue = 0 then NaN else PosInfinity)\<rparr>))
         else
           (let ratio = min (progress / duration) 1;
                s2 = s1\<lparr>valueSt := Num \<lfloor>ratio * endValue\<rfloor>\<rparr>
            in if ratio < 1 then requestAnimationFrame endValue duration s2 else s2))"

text \<open>
  A display refresh at \<open>timestamp\<close>: the host takes the callbacks that are waiting, and
  runs each of them; a callback requested meanwhile waits for the next refresh.
\<close>

definition frame :: "real \<Rightarrow> animator \<Rightarrow> animator" where
  "frame timestamp s =
     fold (\<lambda>(h, endValue, duration). animate endValue duration timestamp) (frames s)
       (s\<lparr>frames := []\<rparr>)"

text \<open>
  The body of the effect:
  \<^verbatim>\<open>
  if (!trigger) { setValue(0); startRef.current = null; return; }
  const animationFrame = requestAnimationFrame(animate);
  return () => { cancelAnimationFrame(animationFrame); };
  \<close>
\<close>

definition useFrameAnimation_effect :: "real \<Rightarrow> real \<Rightarrow> bool \<Rightarrow> animator \<Rightarrow> animator" where
  "useFrameAnimation_effect endValue duration trigger s =
     (if \<not> trigger then s\<lparr>valueSt := Num 0, startRef := None, cleanupFrame := None\<rparr>
      else (requestAnimationFrame endValue duration s)\<lparr>cleanupFrame := Some (nextFrame s)\<rparr>)"

text \<open>The cleanup function of the last effect, when it returned one.\<close>

definition cleanup :: "animator \<Rightarrow> animator" where
  "cleanup s = (case cleanupFrame s of None \<Rightarrow> s | Some h \<Rightarrow> cancelAnimationFrame h s)"

text \<open>
  React's lifecycle: the effect runs at mount; when \<^verbatim>\<open>trigger\<close>, \<^verbatim>\<open>endValue\<close> or
  \<^verbatim>\<open>duration\<close> changes, the cleanup of the last effect runs and then the effect with
  the new values; at unmount the cleanup runs.
\<close>

definition mount :: "real \<Rightarrow> real \<Rightarrow> bool \<Rightarrow> animator" where
  "mount endValue duration trigger =
     useFrameAnimation_effect endValue duration trigger useFrameAnimation_init"

definition rerender :: "real \<Rightarrow> real \<Rightarrow> bool \<Rightarrow> animator \<Rightarrow> animator" where
  "rerender endValue duration trigger s =
     useFrameAnimation_effect endValue duration trigger (cleanup s)"

definition unmount :: "animator \<Rightarrow> animator" where
  "unmount s = cleanup s"

text \<open>
  \<^verbatim>\<open>AnimatedCounter\<close> mounts the hook with \<^verbatim>\<open>trigger\<close> false and turns it to true when
  the counter comes into view.
\<close>

definition triggered :: "real \<Rightarrow> real \<Rightarrow> animator" where
  "triggered endValue duration =
     rerender endValue duration True (mount endValue duration False)"

text \<open>The state after a sequence of display refreshes, and the value reported after each.\<close>

definition run_frames :: "real list \<Rightarrow> animator \<Rightarrow> animator" where
  "run_frames ts s = fold frame ts s"

fun reported :: "animator \<Rightarrow> real list \<Rightarrow> jsnum list" where
  "reported s [] = []"
| "reported s (t # ts) = valueSt (frame t s) # reported (frame t s) ts"

text \<open>
  The callback once more, with the rounding of each operation written out: the
  subtraction, the division and the multiplication each round their result with \<open>rnd\<close>
  (\<^verbatim>\<open>Math.min\<close> and \<^verbatim>\<open>Math.floor\<close> are exact). With \<open>rnd\<close> the identity this is
  \<open>animate\<close>; with \<open>rnd = double\<close> it is the arithmetic of the source.
\<close>

definition animate_rounded ::
    "(real \<Rightarrow> real) \<Rightarrow> real \<Rightarrow> real \<Rightarrow> real \<Rightarrow> animator \<Rightarrow> animator" where
  "animate_rounded rnd endValue duration timestamp s =
     (let start = (case startRef s of
                     None \<Rightarrow> timestamp
                   | Some t \<Rightarrow> if t = 0 then timestamp else t);
          progress = rnd (timestamp - start);
          s1 = s\<lparr>startRef := Some start\<rparr>
      in if duration = 0 then
           (if 0 < progress then s1\<lparr>valueSt := Num \<lfloor>rnd (1 * endValue)\<rfloor>\<rparr>
            else if progress = 0 then s1\<lparr>valueSt := NaN\<rparr>
            else requestAnimationFrame endValue duration
                   (s1\<lparr>valueSt := (if 0 < endValue then NegInfinity
                                    else if endValue = 0 then NaN else PosInfinity)\<rparr>))
         else
           (let ratio = min (rnd (progress / duration)) 1;
                s2 = s1\<lparr>valueSt := Num \<lfloor>rnd (ratio * endValue)\<rfloor>\<rparr>
            in if ratio < 1 then requestAnimationFrame endValue duration s2 else s2))"

definition frame_rounded :: "(real \<Rightarrow> real) \<Rightarrow> real \<Rightarrow> animator \<Rightarrow> animator" where
  "frame_rounded rnd timestamp s =
     fold (\<lambda>(h, endValue, duration). animate_rounded rnd endValue duration timestamp) (frames s)
       (s\<lparr>frames := []\<rparr>)"

fun reported_rounded :: "(real \<Rightarrow> real) \<Rightarrow> animator \<Rightarrow> real list \<Rightarrow> jsnum list" where
  "reported_rounded rnd s [] = []"
| "reported_rounded rnd s (t # ts) =
     valueSt (frame_rounded rnd t s) # reported_rounded rnd (frame_rounded rnd t s) ts"

text \<open>
  The Idle state of the animator: the value is 0, no start timestamp is latched and no
  callback is waiting, so that the value stays 0 until \<^verbatim>\<open>trigger\<close> becomes true.
\<close>

definition idle :: "animator \<Rightarrow> bool" where
  "idle s = (valueSt s = Num 0 \<and> startRef s = None \<and> frames s = [])"

text \<open>
  The states of a run with one callback waiting, as the proofs follow them: \<open>armed\<close>
  before a start timestamp is latched (the value is 0 and \<^verbatim>\<open>!startRef.current\<close>
  holds), \<open>running\<close> once the nonzero timestamp \<open>start\<close> is latched.
\<close>

definition armed :: "real \<Rightarrow> real \<Rightarrow> animator \<Rightarrow> bool" where
  "armed endValue duration s =
     (valueSt s = Num 0 \<and> (startRef s = None \<or> startRef s = Some 0)
      \<and> (\<exists>h. frames s = [(h, endValue, duration)]))"

definition running :: "real \<Rightarrow> real \<Rightarrow> real \<Rightarrow> animator \<Rightarrow> bool" where
  "running endValue duration start s =
     (startRef s = Some start \<and> start \<noteq> 0 \<and> (\<exists>h. frames s = [(h, endValue, duration)]))"

section \<open>Properties of the visibility tracker\<close>

lemma observe_all_Nil: "observe_all opts [] s = s"
  by (simp add: observe_all_def)

lemma observe_all_Cons:
  "observe_all opts (e # es) s = observe_all opts es (observe opts e s)"
  by (simp add: observe_all_def)

lemma observe_all_append:
  "observe_all opts (es @ es') s = observe_all opts es' (observe_all opts es s)"
  by (simp add: observe_all_def)

lemma observe_keeps_inView:
  "once opts \<noteq> Some False \<Longrightarrow> inView s \<Longrightarrow> inView (observe opts e s)"
  by (simp add: observe_def)

lemma observe_all_keeps_inView:
  "once opts \<noteq> Some False \<Longrightarrow> inView s \<Longrightarrow> inView (observe_all opts es s)"
proof (induction es arbitrary: s)
  case Nil
  then show ?case by (simp add: observe_all_Nil)
next
  case (Cons e es)
  from Cons.prems have "inView (observe opts e s)"
    by (rule observe_keeps_inView)
  with Cons.IH Cons.prems(1) show ?case
    by (simp add: observe_all_Cons)
qed

lemma observe_once_irrelevant:
  "once opts \<noteq> Some False \<Longrightarrow> once opts' \<noteq> Some False \<Longrightarrow>
   observe opts e s = observe opts' e s"
  by (simp add: observe_def)

lemma observe_all_once_irrelevant:
  "once opts \<noteq> Some False \<Longrightarrow> once opts' \<noteq> Some False \<Longrightarrow>
   observe_all opts es s = observe_all opts' es s"
proof (induction es arbitrary: s)
  case Nil
  show ?case by (simp add: observe_all_Nil)
next
  case (Cons e es)
  then show ?case
    by (simp add: observe_all_Cons observe_once_irrelevant [of opts opts'])
qed

lemma observe_all_stuck:
  "hasAnimated s \<Longrightarrow> \<not> inView s \<Longrightarrow> \<not> inView (observe_all opts es s)"
proof (induction es arbitrary: s)
  case Nil
  then show ?case by (simp add: observe_all_Nil)
next
  case (Cons e es)
  from Cons.prems have "hasAnimated (observe opts e s)" and "\<not> inView (observe opts e s)"
    by (simp_all add: observe_def)
  with Cons.IH show ?case
    by (simp add: observe_all_Cons)
qed

text \<open>
  C1. With \<^verbatim>\<open>once: false\<close> the in-view signal is claimed to equal the most recent
  observation's threshold comparison after every event. The code does not do this: the
  element enters the viewport, leaves it and enters again, and the signal stays false,
  because the first branch is guarded by \<^verbatim>\<open>!hasAnimated\<close>, which is never reset.
  After the element has entered and left once, no observation makes the signal true.
\<close>

theorem useInView_once_false_stuck:
  "inView (observe_all \<lparr>threshold = 1 / 10, once = Some False\<rparr>
     [\<lparr>isIntersecting = True\<rparr>, \<lparr>isIntersecting = False\<rparr>, \<lparr>isIntersecting = True\<rparr>]
     useInView_init) = False
   \<and> isIntersecting (last
     [\<lparr>isIntersecting = True\<rparr>, \<lparr>isIntersecting = False\<rparr>, \<lparr>isIntersecting = True\<rparr>]) = True
   \<and> \<not> inView (observe_all \<lparr>threshold = th, once = Some False\<rparr>
         ([\<lparr>isIntersecting = True\<rparr>, \<lparr>isIntersecting = False\<rparr>] @ es) useInView_init)"
proof -
  let ?o = "\<lparr>threshold = th, once = Some False\<rparr>"
  let ?s = "observe_all ?o [\<lparr>isIntersecting = True\<rparr>, \<lparr>isIntersecting = False\<rparr>] useInView_init"
  have "hasAnimated ?s" and "\<not> inView ?s"
    by (simp_all add: observe_all_def observe_def useInView_init_def)
  then have "\<not> inView (observe_all ?o es ?s)"
    by (rule observe_all_stuck)
  then show ?thesis
    by (simp add: observe_all_append) (simp add: observe_all_def observe_def useInView_init_def)
qed

text \<open>
  C2. With \<^verbatim>\<open>once: true\<close>, once the in-view signal is true it stays true, whatever
  observations follow (the element leaving the viewport included).
\<close>

theorem useInView_once_true_latches:
  "once opts = Some True \<Longrightarrow> inView (observe_all opts es useInView_init) \<Longrightarrow>
   inView (observe_all opts (es @ es') useInView_init)"
  by (simp add: observe_all_append observe_all_keeps_inView)

theorem useInView_once_true_latches_witness:
  "once \<lparr>threshold = 1 / 2, once = Some True\<rparr> = Some True
   \<and> inView (observe_all \<lparr>threshold = 1 / 2, once = Some True\<rparr>
        [\<lparr>isIntersecting = True\<rparr>] useInView_init)
   \<and> inView (observe_all \<lparr>threshold = 1 / 2, once = Some True\<rparr>
        ([\<lparr>isIntersecting = True\<rparr>] @ [\<lparr>isIntersecting = False\<rparr>, \<lparr>isIntersecting = False\<rparr>])
        useInView_init)"
proof -
  let ?o = "\<lparr>threshold = 1 / 2, once = Some True\<rparr>"
  have a: "once ?o = Some True"
    by simp
  have b: "inView (observe_all ?o [\<lparr>isIntersecting = True\<rparr>] useInView_init)"
    by (simp add: observe_all_def observe_def useInView_init_def)
  from a b useInView_once_true_latches [OF a b,
      of "[\<lparr>isIntersecting = False\<rparr>, \<lparr>isIntersecting = False\<rparr>]"]
  show ?thesis by simp
qed

text \<open>
  C10. A tracker whose options leave \<^verbatim>\<open>once\<close> out (as \<^verbatim>\<open>{ threshold: 0.1 }\<close> in
  \<^verbatim>\<open>HomePage\<close> and \<^verbatim>\<open>AnimatedSection\<close>) is a permanent latch: the branch that
  clears the signal needs \<^verbatim>\<open>options.once === false\<close>, so the tracker does exactly what
  it does with \<^verbatim>\<open>once: true\<close>, and a signal that is true stays true.
\<close>

theorem useInView_once_omitted_latches:
  "once opts = None \<Longrightarrow>
   observe_all opts es s = observe_all (opts\<lparr>once := Some True\<rparr>) es s
   \<and> (inView (observe_all opts es useInView_init) \<longrightarrow>
        inView (observe_all opts (es @ es') useInView_init))"
proof
  assume n: "once opts = None"
  then show "observe_all opts es s = observe_all (opts\<lparr>once := Some True\<rparr>) es s"
    by (intro observe_all_once_irrelevant) simp_all
  from n show "inView (observe_all opts es useInView_init) \<longrightarrow>
      inView (observe_all opts (es @ es') useInView_init)"
    by (simp add: observe_all_append observe_all_keeps_inView)
qed

theorem useInView_once_omitted_latches_witness:
  "once \<lparr>threshold = 1 / 10, once = None\<rparr> = None
   \<and> inView (observe_all \<lparr>threshold = 1 / 10, once = None\<rparr>
        [\<lparr>isIntersecting = False\<rparr>, \<lparr>isIntersecting = True\<rparr>] useInView_init)
   \<and> inView (observe_all \<lparr>threshold = 1 / 10, once = None\<rparr>
        ([\<lparr>isIntersecting = False\<rparr>, \<lparr>isIntersecting = True\<rparr>] @ [\<lparr>isIntersecting = False\<rparr>])
        useInView_init)"
proof -
  let ?o = "\<lparr>threshold = 1 / 10, once = None\<rparr>"
  have a: "once ?o = None"
    by simp
  have b: "inView (observe_all ?o
      [\<lparr>isIntersecting = False\<rparr>, \<lparr>isIntersecting = True\<rparr>] useInView_init)"
    by (simp add: observe_all_def observe_def useInView_init_def)
  from a b useInView_once_omitted_latches [OF a,
      of "[\<lparr>isIntersecting = False\<rparr>, \<lparr>isIntersecting = True\<rparr>]" useInView_init
         "[\<lparr>isIntersecting = False\<rparr>]"]
  show ?thesis by simp
qed

section \<open>Properties of the carousel\<close>

lemma js_rem_nonneg:
  "0 \<le> a \<Longrightarrow> 0 < n \<Longrightarrow> js_rem (Num a) n = Num (a mod n)"
  by (cases "a = 0") simp_all

lemma next_index_Num:
  "0 \<le> i \<Longrightarrow> images \<noteq> [] \<Longrightarrow>
   next_index images (Num i) = Num ((i + 1) mod int (length images))"
  by (simp add: next_index_def js_rem_nonneg del: js_rem.simps)

lemma prev_index_Num:
  "0 \<le> i \<Longrightarrow> images \<noteq> [] \<Longrightarrow>
   prev_index images (Num i) = Num ((i - 1 + int (length images)) mod int (length images))"
proof -
  assume i: "0 \<le> i" and ne: "images \<noteq> []"
  from ne have n: "0 < int (length images)" by simp
  with i have "0 \<le> i + (- 1) + int (length images)" by linarith
  with n show ?thesis
    by (simp add: prev_index_def js_rem_nonneg del: js_rem.simps)
qed

lemma in_bounds_Num: "in_bounds x n \<Longrightarrow> \<exists>i. x = Num i \<and> 0 \<le> i \<and> i < n"
  by (cases x) simp_all

lemma next_index_in_bounds:
  "images \<noteq> [] \<Longrightarrow> in_bounds x (int (length images)) \<Longrightarrow>
   in_bounds (next_index images x) (int (length images))"
  by (auto dest!: in_bounds_Num simp: next_index_Num)

lemma prev_index_in_bounds:
  "images \<noteq> [] \<Longrightarrow> in_bounds x (int (length images)) \<Longrightarrow>
   in_bounds (prev_index images x) (int (length images))"
  by (auto dest!: in_bounds_Num simp: prev_index_Num)

lemma resetTimer_index [simp]: "currentImageIndex (resetTimer s) = currentImageIndex s"
  by (simp add: resetTimer_def startAutoSlide_def clearInterval_def split: option.split)

lemma resetTimer_clock [simp]: "clock (resetTimer s) = clock s"
  by (simp add: resetTimer_def startAutoSlide_def clearInterval_def split: option.split)

lemma resetTimer_nextTimer [simp]: "nextTimer (resetTimer s) = nextTimer s + 1"
  by (simp add: resetTimer_def startAutoSlide_def clearInterval_def split: option.split)

lemma handleNextClick_index [simp]:
  "currentImageIndex (handleNextClick images s) = next_index images (currentImageIndex s)"
  by (simp add: handleNextClick_def)

lemma handlePrevClick_index [simp]:
  "currentImageIndex (handlePrevClick images s) = prev_index images (currentImageIndex s)"
  by (simp add: handlePrevClick_def)

lemma autoSlide_pow_index:
  "currentImageIndex ((autoSlide images ^^ n) s) = (next_index images ^^ n) (currentImageIndex s)"
  by (induction n) (simp_all add: autoSlide_def)

lemma autoSlide_pow_rest:
  "timers ((autoSlide images ^^ n) s) = timers s"
  "intervalRef ((autoSlide images ^^ n) s) = intervalRef s"
  "nextTimer ((autoSlide images ^^ n) s) = nextTimer s"
  "clock ((autoSlide images ^^ n) s) = clock s"
  by (induction n) (simp_all add: autoSlide_def)

lemma tick_index:
  "currentImageIndex (tick images s) = (next_index images ^^ due_count s) (currentImageIndex s)"
  by (simp add: tick_def autoSlide_pow_index)

lemma next_index_pow_in_bounds:
  "images \<noteq> [] \<Longrightarrow> in_bounds x (int (length images)) \<Longrightarrow>
   in_bounds ((next_index images ^^ n) x) (int (length images))"
  by (induction n) (simp_all add: next_index_in_bounds)

lemma step_in_bounds:
  "images \<noteq> [] \<Longrightarrow> in_bounds (currentImageIndex s) (int (length images)) \<Longrightarrow>
   in_bounds (currentImageIndex (step images e s)) (int (length images))"
  by (cases e)
    (simp_all add: tick_index next_index_pow_in_bounds next_index_in_bounds prev_index_in_bounds)

lemma run_Nil [simp]: "run images [] s = s"
  by (simp add: run_def)

lemma run_Cons [simp]: "run images (e # es) s = run images es (step images e s)"
  by (simp add: run_def)

lemma run_append: "run images (es @ es') s = run images es' (run images es s)"
  by (simp add: run_def)

lemma run_in_bounds:
  "images \<noteq> [] \<Longrightarrow> in_bounds (currentImageIndex s) (int (length images)) \<Longrightarrow>
   in_bounds (currentImageIndex (run images es s)) (int (length images))"
  by (induction es arbitrary: s) (simp_all add: step_in_bounds del: step.simps)

lemma mount_index [simp]: "currentImageIndex HomePage_mount = Num 0"
  by (simp add: HomePage_mount_def startAutoSlide_def HomePage_init_def)

lemma next_pow_mount:
  assumes "images \<noteq> []"
  shows "currentImageIndex ((handleNextClick images ^^ k) HomePage_mount)
         = Num (int k mod int (length images))"
proof (induction k)
  case 0
  show ?case by simp
next
  case (Suc k)
  have "0 \<le> int k mod int (length images)" using assms by simp
  with Suc assms show ?case
    by (simp add: next_index_Num mod_simps add.commute)
qed

lemma prev_mount:
  assumes "images \<noteq> []"
  shows "currentImageIndex (handlePrevClick images HomePage_mount) = Num (int (length images) - 1)"
  using assms by (simp add: prev_index_Num zmod_minus1)

text \<open>
  C3. For a carousel over \<open>N > 0\<close> items and an index \<open>i\<close> in \<open>[0, N)\<close>, a manual
  "next" sets the index to \<open>(i + 1) mod N\<close> and a manual "previous" sets it to
  \<open>(i - 1 + N) mod N\<close>; after \<open>k\<close> consecutive "next" actions from the mount (index 0)
  the index is \<open>k mod N\<close>, and after a single "previous" from the mount it is \<open>N - 1\<close>.
\<close>

theorem carousel_next_prev:
  "images \<noteq> [] \<Longrightarrow> currentImageIndex s = Num i \<Longrightarrow> 0 \<le> i \<Longrightarrow> i < int (length images) \<Longrightarrow>
   currentImageIndex (handleNextClick images s) = Num ((i + 1) mod int (length images))
   \<and> currentImageIndex (handlePrevClick images s)
       = Num ((i - 1 + int (length images)) mod int (length images))
   \<and> currentImageIndex ((handleNextClick images ^^ k) HomePage_mount)
       = Num (int k mod int (length images))
   \<and> currentImageIndex (handlePrevClick images HomePage_mount) = Num (int (length images) - 1)"
  by (simp add: next_index_Num prev_index_Num next_pow_mount zmod_minus1)

theorem carousel_next_prev_witness:
  "[''banner1.jpg'', ''ordnance.jpg'', ''banner3.jpg''] \<noteq> []
   \<and> currentImageIndex (HomePage_mount\<lparr>currentImageIndex := Num 2\<rparr>) = Num 2
   \<and> (0::int) \<le> 2 \<and> 2 < int (length [''banner1.jpg'', ''ordnance.jpg'', ''banner3.jpg''])
   \<and> currentImageIndex (handleNextClick [''banner1.jpg'', ''ordnance.jpg'', ''banner3.jpg'']
         (HomePage_mount\<lparr>currentImageIndex := Num 2\<rparr>)) = Num 0
   \<and> currentImageIndex (handlePrevClick [''banner1.jpg'', ''ordnance.jpg'', ''banner3.jpg'']
         (HomePage_mount\<lparr>currentImageIndex := Num 2\<rparr>)) = Num 1
   \<and> currentImageIndex ((handleNextClick [''banner1.jpg'', ''ordnance.jpg'', ''banner3.jpg''] ^^ 7)
         HomePage_mount) = Num 1
   \<and> currentImageIndex (handlePrevClick [''banner1.jpg'', ''ordnance.jpg'', ''banner3.jpg'']
         HomePage_mount) = Num 2"
  using carousel_next_prev [of "[''banner1.jpg'', ''ordnance.jpg'', ''banner3.jpg'']"
      "HomePage_mount\<lparr>currentImageIndex := Num 2\<rparr>" 2 7]
  by simp

text \<open>
  C8. For a carousel over \<open>N > 0\<close> items the index is always an integer in \<open>[0, N)\<close>:
  it is 0 at the mount, every operation (the periodic auto-advance of a tick, a manual
  "next", a manual "previous") keeps it in bounds, and so it is in bounds after every
  run of events.
\<close>

theorem carousel_index_in_bounds:
  "images \<noteq> [] \<Longrightarrow>
   currentImageIndex HomePage_mount = Num 0
   \<and> (in_bounds (currentImageIndex s) (int (length images)) \<longrightarrow>
        in_bounds (currentImageIndex (step images e s)) (int (length images)))
   \<and> in_bounds (currentImageIndex (run images es HomePage_mount)) (int (length images))"
  by (simp add: step_in_bounds run_in_bounds del: step.simps)

theorem carousel_index_in_bounds_witness:
  "[''banner1.jpg'', ''ordnance.jpg''] \<noteq> []
   \<and> in_bounds (currentImageIndex HomePage_mount) (int (length [''banner1.jpg'', ''ordnance.jpg'']))
   \<and> in_bounds (currentImageIndex (step [''banner1.jpg'', ''ordnance.jpg''] PrevClick HomePage_mount))
        (int (length [''banner1.jpg'', ''ordnance.jpg'']))
   \<and> in_bounds (currentImageIndex
          (run [''banner1.jpg'', ''ordnance.jpg''] [PrevClick, Tick, NextClick, NextClick] HomePage_mount))
        (int (length [''banner1.jpg'', ''ordnance.jpg'']))"
  using carousel_index_in_bounds [of "[''banner1.jpg'', ''ordnance.jpg'']" HomePage_mount
      PrevClick "[PrevClick, Tick, NextClick, NextClick]"]
  by simp

lemma single_timer_mount: "single_timer HomePage_mount 5000"
  by (simp add: single_timer_def HomePage_mount_def startAutoSlide_def HomePage_init_def)

lemma resetTimer_single_timer:
  assumes "single_timer s due"
  shows "timers (resetTimer s) = [(nextTimer s, clock s + 5000)]"
    and "single_timer (resetTimer s) (clock s + 5000)"
  using assms
  by (auto simp: single_timer_def resetTimer_def startAutoSlide_def clearInterval_def)

lemma single_timer_index_update:
  "single_timer (s\<lparr>currentImageIndex := x\<rparr>) due = single_timer s due"
  by (simp add: single_timer_def)

lemma handlePrevClick_timer:
  assumes "single_timer s due"
  shows "timers (handlePrevClick images s) = [(nextTimer s, clock s + 5000)]"
    and "single_timer (handlePrevClick images s) (clock s + 5000)"
    and "clock (handlePrevClick images s) = clock s"
  using resetTimer_single_timer [of "s\<lparr>currentImageIndex := prev_index images (currentImageIndex s)\<rparr>" due]
    assms
  by (simp_all add: handlePrevClick_def single_timer_index_update)

lemma handleNextClick_timer:
  assumes "single_timer s due"
  shows "timers (handleNextClick images s) = [(nextTimer s, clock s + 5000)]"
    and "single_timer (handleNextClick images s) (clock s + 5000)"
    and "clock (handleNextClick images s) = clock s"
  using resetTimer_single_timer [of "s\<lparr>currentImageIndex := next_index images (currentImageIndex s)\<rparr>" due]
    assms
  by (simp_all add: handleNextClick_def single_timer_index_update)

lemma due_count_single:
  "single_timer s due \<Longrightarrow> due_count s = (if due = clock s + 1 then 1 else 0)"
  by (auto simp: single_timer_def due_count_def)

lemma tick_clock [simp]: "clock (tick images s) = clock s + 1"
  by (simp add: tick_def autoSlide_pow_rest)

lemma tick_single_timer:
  "single_timer s due \<Longrightarrow>
   single_timer (tick images s) (if due = clock s + 1 then due + 5000 else due)"
  by (auto simp: single_timer_def tick_def autoSlide_pow_rest)

lemma tick_quiet:
  assumes "single_timer s due" and "due \<noteq> clock s + 1"
  shows "tick images s = s\<lparr>clock := clock s + 1\<rparr>"
proof -
  from assms have "due_count s = 0"
    by (simp add: due_count_single)
  moreover from assms
  have "map (\<lambda>(h, d). if d = clock s + 1 then (h, d + 5000) else (h, d)) (timers s) = timers s"
    by (auto simp: single_timer_def)
  ultimately show ?thesis
    by (simp add: tick_def)
qed

lemma spaced_history:
  "single_timer s due \<Longrightarrow> clock s < due \<Longrightarrow> t0 + 5000 \<le> due \<Longrightarrow>
   spaced t0 (history images es s)"
proof (induction es arbitrary: s due t0)
  case Nil
  show ?case by simp
next
  case (Cons e es)
  show ?case
  proof (cases e)
    case Tick
    show ?thesis
    proof (cases "due = clock s + 1")
      case True
      from Cons.prems(1) have st: "single_timer (tick images s) (due + 5000)"
        using tick_single_timer [of s due images] True by simp
      have "spaced (clock s + 1) (history images es (tick images s))"
        by (rule Cons.IH [OF st]) (simp_all add: True)
      with True Cons.prems Tick show ?thesis
        by (simp add: due_count_single)
    next
      case False
      from Cons.prems(1) have st: "single_timer (tick images s) due"
        using tick_single_timer [of s due images] False by simp
      have "spaced t0 (history images es (tick images s))"
        by (rule Cons.IH [OF st]) (use False Cons.prems in simp_all)
      with False Cons.prems Tick show ?thesis
        by (simp add: due_count_single)
    qed
  next
    case PrevClick
    have "spaced (clock s) (history images es (handlePrevClick images s))"
      by (rule Cons.IH [OF handlePrevClick_timer(2) [OF Cons.prems(1)]])
        (simp_all add: handlePrevClick_timer(3) [OF Cons.prems(1)])
    with PrevClick show ?thesis by simp
  next
    case NextClick
    have "spaced (clock s) (history images es (handleNextClick images s))"
      by (rule Cons.IH [OF handleNextClick_timer(2) [OF Cons.prems(1)]])
        (simp_all add: handleNextClick_timer(3) [OF Cons.prems(1)])
    with NextClick show ?thesis by simp
  qed
qed

lemma run_single_timer:
  "single_timer s due \<Longrightarrow> clock s < due \<Longrightarrow>
   \<exists>due'. single_timer (run images es s) due' \<and> clock (run images es s) < due'"
proof (induction es arbitrary: s due)
  case Nil
  then show ?case by auto
next
  case (Cons e es)
  have "\<exists>d. single_timer (step images e s) d \<and> clock (step images e s) < d"
  proof (cases e)
    case Tick
    with tick_single_timer [OF Cons.prems(1), of images] Cons.prems(2) show ?thesis
      by (cases "due = clock s + 1") auto
  next
    case PrevClick
    with handlePrevClick_timer(2,3) [OF Cons.prems(1), of images] show ?thesis
      by auto
  next
    case NextClick
    with handleNextClick_timer(2,3) [OF Cons.prems(1), of images] show ?thesis
      by auto
  qed
  then obtain d where "single_timer (step images e s) d" "clock (step images e s) < d"
    by blast
  from Cons.IH [OF this] show ?case by simp
qed

lemma history_append:
  "history images (es @ es') s = history images es s @ history images es' (run images es s)"
  by (induction images es s rule: history.induct) simp_all

lemma ticks_quiet:
  "single_timer s due \<Longrightarrow> clock s + d < due \<Longrightarrow>
   history images (replicate d Tick) s = []
   \<and> run images (replicate d Tick) s = s\<lparr>clock := clock s + d\<rparr>"
proof (induction d arbitrary: s)
  case 0
  show ?case by simp
next
  case (Suc d)
  from Suc.prems have ne: "due \<noteq> clock s + 1" by simp
  have t: "tick images s = s\<lparr>clock := clock s + 1\<rparr>"
    by (rule tick_quiet [OF Suc.prems(1) ne])
  have st: "single_timer (s\<lparr>clock := clock s + 1\<rparr>) due"
    using Suc.prems(1) by (simp add: single_timer_def)
  from Suc.IH [OF st] Suc.prems(2) t Suc.prems(1) ne show ?case
    by (simp add: due_count_single)
qed

text \<open>
  C4. Every manual navigation cancels the pending auto-advance and restarts the period:
  after a "previous" or a "next", in any state a run from the mount can reach, the one
  active interval is the new one, first due 5000 ms after the click. So in every run each
  auto-advance happens at least 5000 ms after the action before it, of whatever kind (the
  mount for the first); in particular, after a manual "previous" at 1000 ms the run has no
  auto-advance before 6000 ms.
\<close>

theorem carousel_manual_resets_timer:
  "timers (handlePrevClick images (run images es HomePage_mount))
     = [(nextTimer (run images es HomePage_mount), clock (run images es HomePage_mount) + 5000)]
   \<and> timers (handleNextClick images (run images es HomePage_mount))
     = [(nextTimer (run images es HomePage_mount), clock (run images es HomePage_mount) + 5000)]
   \<and> spaced 0 (history images es HomePage_mount)
   \<and> (d < 5000 \<longrightarrow>
        history images (replicate 1000 Tick @ [PrevClick] @ replicate d Tick) HomePage_mount
        = [(1000, ManualPrev)])"
proof -
  have m: "single_timer HomePage_mount 5000" and c: "clock HomePage_mount = 0"
    by (simp_all add: single_timer_mount) (simp add: HomePage_mount_def startAutoSlide_def HomePage_init_def)
  obtain due where r: "single_timer (run images es HomePage_mount) due"
    using run_single_timer [OF m, of images es] c by auto
  have a: "spaced 0 (history images es HomePage_mount)"
    by (rule spaced_history [OF m]) (simp_all add: c)
  have q: "history images (replicate 1000 Tick) HomePage_mount = []"
    and q': "run images (replicate 1000 Tick) HomePage_mount = HomePage_mount\<lparr>clock := 1000\<rparr>"
    using ticks_quiet [OF m, of 1000 images] c by simp_all
  let ?s = "HomePage_mount\<lparr>clock := 1000\<rparr>"
  have s1: "single_timer ?s 5000"
    using m by (simp add: single_timer_def)
  have b: "history images (replicate 1000 Tick @ [PrevClick] @ replicate d Tick) HomePage_mount
      = [(1000, ManualPrev)]" if "d < 5000"
  proof -
    have "history images (replicate d Tick) (handlePrevClick images ?s) = []"
      using ticks_quiet [OF handlePrevClick_timer(2) [OF s1, of images], of d images] that
      by (simp add: handlePrevClick_timer(3) [OF s1])
    then show ?thesis
      by (simp add: history_append q q')
  qed
  from a b handlePrevClick_timer(1) [OF r, of images] handleNextClick_timer(1) [OF r, of images]
  show ?thesis
    by simp
qed


lemma history_first_auto:
  "history images (replicate 5000 Tick) HomePage_mount = [(5000, AutoAdvance)]"
proof -
  have m: "single_timer HomePage_mount 5000" and c: "clock HomePage_mount = 0"
    by (simp_all add: single_timer_mount) (simp add: HomePage_mount_def startAutoSlide_def HomePage_init_def)
  have "replicate (Suc 4999) Tick = replicate 4999 Tick @ [Tick]"
    by (simp only: replicate_Suc replicate_append_same)
  then have r: "replicate 5000 Tick = replicate 4999 Tick @ [Tick]"
    by simp
  have s: "single_timer (HomePage_mount\<lparr>clock := 4999\<rparr>) 5000"
    using m by (simp add: single_timer_def)
  from ticks_quiet [OF m, of 4999 images] c show ?thesis
    unfolding r by (simp add: history_append due_count_single [OF s])
qed

theorem carousel_manual_resets_timer_witness:
  "(3::nat) < 5000
   \<and> history [''banner1.jpg'', ''ordnance.jpg''] (replicate 1000 Tick @ [PrevClick] @ replicate 3 Tick)
        HomePage_mount = [(1000, ManualPrev)]
   \<and> history [''banner1.jpg'', ''ordnance.jpg''] (replicate 5000 Tick) HomePage_mount
        = [(5000, AutoAdvance)]
   \<and> spaced 0 [(5000, AutoAdvance)]"
  using carousel_manual_resets_timer [of "[''banner1.jpg'', ''ordnance.jpg'']" "replicate 5000 Tick" 3]
  by (simp add: history_first_auto)

section \<open>Properties of the frame animator\<close>

lemma animate_fields:
  assumes "d \<noteq> 0"
    and "start = (case startRef s of None \<Rightarrow> t | Some x \<Rightarrow> if x = 0 then t else x)"
  shows "startRef (animate e d t s) = Some start"
    and "valueSt (animate e d t s) = Num \<lfloor>min ((t - start) / d) 1 * e\<rfloor>"
    and "frames (animate e d t s)
         = (if (t - start) / d < 1 then frames s @ [(nextFrame s, e, d)] else frames s)"
  using assms
  by (simp_all add: animate_def Let_def requestAnimationFrame_def min_less_iff_disj)

lemma frame_single: "frames s = [(h, e, d)] \<Longrightarrow> frame t s = animate e d t (s\<lparr>frames := []\<rparr>)"
  by (simp add: frame_def)

lemma frame_idle: "frames s = [] \<Longrightarrow> frame t s = s"
  by (simp add: frame_def)

lemma triggered_armed: "armed e d (triggered e d)"
  by (simp add: armed_def triggered_def rerender_def mount_def useFrameAnimation_effect_def
      cleanup_def requestAnimationFrame_def useFrameAnimation_init_def)

lemma frame_armed_zero:
  assumes "armed e d s" and "0 < d"
  shows "armed e d (frame 0 s)"
proof -
  from assms(1) obtain h where f: "frames s = [(h, e, d)]"
    by (auto simp: armed_def)
  from assms(1) have st: "(case startRef (s\<lparr>frames := []\<rparr>) of None \<Rightarrow> 0
      | Some x \<Rightarrow> if x = 0 then 0 else x) = (0::real)"
    by (auto simp: armed_def)
  from assms(2) have d: "d \<noteq> 0" by simp
  show ?thesis
    using animate_fields [OF d st [symmetric], of e] assms(2)
    by (simp add: armed_def frame_single [OF f])
qed

lemma frame_armed_nonzero:
  assumes "armed e d s" and "0 < d" and "t \<noteq> 0"
  shows "running e d t (frame t s)" and "valueSt (frame t s) = Num 0"
proof -
  from assms(1) obtain h where f: "frames s = [(h, e, d)]"
    by (auto simp: armed_def)
  from assms(1) have st: "(case startRef (s\<lparr>frames := []\<rparr>) of None \<Rightarrow> t
      | Some x \<Rightarrow> if x = 0 then t else x) = t"
    by (auto simp: armed_def)
  from assms(2) have d: "d \<noteq> 0" by simp
  show "running e d t (frame t s)"
    using animate_fields [OF d st [symmetric], of e] assms(2,3)
    by (simp add: running_def frame_single [OF f])
  show "valueSt (frame t s) = Num 0"
    using animate_fields [OF d st [symmetric], of e]
    by (simp add: frame_single [OF f])
qed

lemma frame_running:
  assumes "running e d st s" and "0 < d"
  shows "valueSt (frame t s) = Num \<lfloor>min ((t - st) / d) 1 * e\<rfloor>"
    and "(t - st) / d < 1 \<Longrightarrow> running e d st (frame t s)"
    and "\<not> (t - st) / d < 1 \<Longrightarrow> frames (frame t s) = []"
proof -
  from assms(1) obtain h where f: "frames s = [(h, e, d)]"
    by (auto simp: running_def)
  from assms(1) have st: "(case startRef (s\<lparr>frames := []\<rparr>) of None \<Rightarrow> t
      | Some x \<Rightarrow> if x = 0 then t else x) = st"
    by (auto simp: running_def)
  from assms(2) have d: "d \<noteq> 0" by simp
  note af = animate_fields [OF d st [symmetric], of e]
  show "valueSt (frame t s) = Num \<lfloor>min ((t - st) / d) 1 * e\<rfloor>"
    using af by (simp add: frame_single [OF f])
  show "running e d st (frame t s)" if "(t - st) / d < 1"
    using af that assms(1) by (simp add: running_def frame_single [OF f])
  show "frames (frame t s) = []" if "\<not> (t - st) / d < 1"
    using af that by (simp add: frame_single [OF f])
qed

lemma reported_idle: "frames s = [] \<Longrightarrow> reported s ts = replicate (length ts) (valueSt s)"
  by (induction ts) (simp_all add: frame_idle)

lemma reported_running:
  "running e d st s \<Longrightarrow> 0 < d \<Longrightarrow> sorted ts \<Longrightarrow>
   reported s ts = map (\<lambda>t. Num \<lfloor>min ((t - st) / d) 1 * e\<rfloor>) ts"
proof (induction ts arbitrary: s)
  case Nil
  show ?case by simp
next
  case (Cons t ts)
  note fr = frame_running [OF Cons.prems(1,2), of t]
  from Cons.prems(3) have sorted: "sorted ts" and le: "\<forall>u\<in>set ts. t \<le> u"
    by simp_all
  show ?case
  proof (cases "(t - st) / d < 1")
    case True
    from Cons.IH [OF fr(2) [OF True] Cons.prems(2) sorted] fr(1) show ?thesis
      by simp
  next
    case False
    have late: "min ((u - st) / d) 1 = 1" if "u \<in> set ts" for u
    proof -
      from that le have "t - st \<le> u - st" by simp
      with Cons.prems(2) have "(t - st) / d \<le> (u - st) / d"
        by (simp add: divide_right_mono)
      with False show ?thesis by simp
    qed
    from False have now: "min ((t - st) / d) 1 = 1" by simp
    have "reported (frame t s) ts = replicate (length ts) (Num \<lfloor>e\<rfloor>)"
      using reported_idle [OF fr(3) [OF False], of ts] fr(1) now by simp
    also have "\<dots> = map (\<lambda>u. Num \<lfloor>min ((u - st) / d) 1 * e\<rfloor>) ts"
      by (simp add: map_replicate_const [symmetric] late cong: map_cong)
    finally show ?thesis
      using fr(1) by simp
  qed
qed

lemma reported_length [simp]: "length (reported s ts) = length ts"
  by (induction ts arbitrary: s) simp_all

lemma reported_Nil_iff [simp]: "reported s ts = [] \<longleftrightarrow> ts = []"
  by (cases ts) simp_all

lemma reported_last:
  "ts \<noteq> [] \<Longrightarrow> last (reported s ts) = valueSt (run_frames ts s)"
  by (induction ts arbitrary: s) (auto simp: run_frames_def)

lemma reported_triggered_formula:
  assumes "0 < d" and "sorted (t0 # ts)" and "t0 \<noteq> 0"
  shows "reported (triggered e d) (t0 # ts) = map (\<lambda>t. Num \<lfloor>min ((t - t0) / d) 1 * e\<rfloor>) (t0 # ts)"
proof -
  note fa = frame_armed_nonzero [OF triggered_armed assms(1,3), of e]
  from assms(2) have "sorted ts" by simp
  from reported_running [OF fa(1) assms(1) this] fa(2) show ?thesis
    by simp
qed


lemma run_frames_Nil [simp]: "run_frames [] s = s"
  by (simp add: run_frames_def)

lemma run_frames_Cons [simp]: "run_frames (t # ts) s = run_frames ts (frame t s)"
  by (simp add: run_frames_def)

lemma run_frames_idle: "frames s = [] \<Longrightarrow> run_frames ts s = s"
  by (induction ts) (simp_all add: frame_idle)

lemma run_frames_running_complete:
  "running e d st s \<Longrightarrow> 0 < d \<Longrightarrow> ts \<noteq> [] \<Longrightarrow> sorted ts \<Longrightarrow> d \<le> last ts - st \<Longrightarrow>
   frames (run_frames ts s) = []"
proof (induction ts arbitrary: s)
  case Nil
  then show ?case by simp
next
  case (Cons t ts)
  note fr = frame_running [OF Cons.prems(1,2), of t]
  show ?case
  proof (cases "(t - st) / d < 1")
    case True
    with Cons.prems(2,5) have "ts \<noteq> []"
      by (auto simp: divide_less_eq)
    with Cons.IH [OF fr(2) [OF True] Cons.prems(2)] Cons.prems(4,5) show ?thesis
      by simp
  next
    case False
    from run_frames_idle [OF fr(3) [OF False], of ts] fr(3) [OF False] show ?thesis
      by simp
  qed
qed

lemma armed_frame_value:
  assumes "armed e d s" and "0 < d"
  shows "valueSt (frame t s) = Num 0"
proof (cases "t = 0")
  case True
  from frame_armed_zero [OF assms] show ?thesis
    by (simp add: True armed_def)
next
  case False
  then show ?thesis
    by (rule frame_armed_nonzero(2) [OF assms])
qed

lemma run_frames_triggered_final:
  assumes "0 < d" and "t0 \<noteq> 0" and "sorted (t0 # ts)" and "d \<le> last (t0 # ts) - t0"
  shows "valueSt (run_frames (t0 # ts) (triggered e d)) = Num \<lfloor>e\<rfloor>"
    and "frames (run_frames (t0 # ts) (triggered e d)) = []"
proof -
  from assms(1,4) have ne: "ts \<noteq> []"
    by auto
  note fa = frame_armed_nonzero [OF triggered_armed assms(1,2), of e]
  from assms(3) have sorted: "sorted ts"
    by simp
  from ne assms(4) have l: "d \<le> last ts - t0"
    by simp
  show "frames (run_frames (t0 # ts) (triggered e d)) = []"
    using run_frames_running_complete [OF fa(1) assms(1) ne sorted l] by simp
  from assms(1) l have "min ((last ts - t0) / d) 1 = 1"
    by (simp add: le_divide_eq)
  with ne have "last (map (\<lambda>t. Num \<lfloor>min ((t - t0) / d) 1 * e\<rfloor>) (t0 # ts)) = Num \<lfloor>e\<rfloor>"
    by (simp add: last_map)
  then show "valueSt (run_frames (t0 # ts) (triggered e d)) = Num \<lfloor>e\<rfloor>"
    using reported_last [of "t0 # ts" "triggered e d"]
      reported_triggered_formula [OF assms(1,3,2), of e] ne
    by simp
qed

text \<open>
  The final value is the floor of the target, so it is not the target when the target
  is not an integer: with target 3.5 and duration 2000, the callback 2000 ms after the
  first one reports 3.
\<close>

theorem frame_animation_endpoints_counterexample:
  "valueSt (run_frames [100, 2100] (triggered (7 / 2) 2000)) = Num 3 \<and> real_of_int 3 \<noteq> 7 / 2"
  using run_frames_triggered_final(1) [of 2000 100 "[2100]" "7 / 2"]
  by simp

text \<open>
  C5, as the code has it. For an animator mounted idle, the value reported at the moment
  \<^verbatim>\<open>trigger\<close> becomes true is 0, and it is 0 after the first callback (elapsed time 0).
  Elapsed time counts from the first callback's timestamp \<open>t0\<close>, which the code latches
  (a timestamp of 0 is not latched, so \<open>t0 \<noteq> 0\<close>). Once a callback comes with elapsed
  time at least \<open>duration\<close>, the value is the floor of \<^verbatim>\<open>endValue\<close>, which is
  \<^verbatim>\<open>endValue\<close> itself when that is an integer; no callback is waiting any more, so the
  value is final. With target 350 and duration 2000 the value at elapsed time 2000 is
  exactly 350.
\<close>

theorem frame_animation_endpoints:
  "0 < d \<Longrightarrow> t0 \<noteq> 0 \<Longrightarrow> sorted (t0 # ts) \<Longrightarrow> d \<le> last (t0 # ts) - t0 \<Longrightarrow>
   valueSt (triggered e d) = Num 0
   \<and> valueSt (frame t0 (triggered e d)) = Num 0
   \<and> valueSt (run_frames (t0 # ts) (triggered e d)) = Num \<lfloor>e\<rfloor>
   \<and> run_frames ts' (run_frames (t0 # ts) (triggered e d)) = run_frames (t0 # ts) (triggered e d)
   \<and> valueSt (run_frames (t0 # ts) (triggered (real_of_int n) d)) = Num n
   \<and> valueSt (run_frames [t0, t0 + 2000] (triggered 350 2000)) = Num 350"
proof -
  assume d: "0 < d" and t0: "t0 \<noteq> 0" and s: "sorted (t0 # ts)" and l: "d \<le> last (t0 # ts) - t0"
  have 1: "valueSt (triggered e d) = Num 0"
    using triggered_armed [of e d] by (simp add: armed_def)
  have 2: "valueSt (frame t0 (triggered e d)) = Num 0"
    by (rule armed_frame_value [OF triggered_armed d])
  note fin = run_frames_triggered_final [OF d t0 s l]
  have 3: "run_frames ts' (run_frames (t0 # ts) (triggered e d)) = run_frames (t0 # ts) (triggered e d)"
    by (rule run_frames_idle [OF fin(2)])
  have 4: "valueSt (run_frames (t0 # ts) (triggered (real_of_int n) d)) = Num n"
    using fin(1) [of "real_of_int n"] by simp
  have 5: "valueSt (run_frames [t0, t0 + 2000] (triggered 350 2000)) = Num 350"
    using run_frames_triggered_final(1) [of 2000 t0 "[t0 + 2000]" 350] t0 by simp
  from 1 2 fin(1) 3 4 5 show ?thesis
    by simp
qed

theorem frame_animation_endpoints_witness:
  "(0::real) < 2000 \<and> (100::real) \<noteq> 0 \<and> sorted [100, 1100, 2100 :: real]
   \<and> (2000::real) \<le> last [100, 1100, 2100] - 100
   \<and> valueSt (triggered (7 / 2) 2000) = Num 0
   \<and> valueSt (frame 100 (triggered (7 / 2) 2000)) = Num 0
   \<and> valueSt (run_frames [100, 1100, 2100] (triggered (7 / 2) 2000)) = Num 3
   \<and> run_frames [3000] (run_frames [100, 1100, 2100] (triggered (7 / 2) 2000))
       = run_frames [100, 1100, 2100] (triggered (7 / 2) 2000)
   \<and> valueSt (run_frames [100, 1100, 2100] (triggered 350 2000)) = Num 350
   \<and> valueSt (run_frames [100, 100 + 2000] (triggered 350 2000)) = Num 350"
  using frame_animation_endpoints [of 2000 100 "[1100, 2100]" "7 / 2" "[3000]" 350]
  by simp

text \<open>
  C6. The cleanup cancels the handle of the first request only. After the first callback
  has run and requested the next one, a turn of \<^verbatim>\<open>trigger\<close> to false, or an unmount,
  leaves that request waiting; after the turn to false its callback runs, latches a new
  start and requests the next one, and 1000 ms later the reported value is 175 although
  \<^verbatim>\<open>trigger\<close> is false.
\<close>

theorem frame_animation_pending_after_cleanup:
  "frames (rerender 350 2000 False (frame 100 (triggered 350 2000))) = [(2, 350, 2000)]
   \<and> frames (unmount (frame 100 (triggered 350 2000))) = [(2, 350, 2000)]
   \<and> valueSt (run_frames [200, 1200] (rerender 350 2000 False (frame 100 (triggered 350 2000))))
       = Num 175"
  by (simp add: triggered_def rerender_def mount_def unmount_def useFrameAnimation_effect_def
      cleanup_def requestAnimationFrame_def cancelAnimationFrame_def useFrameAnimation_init_def
      frame_def animate_def Let_def)

section \<open>Properties of rounding\<close>

lemma round_half_even_between:
  "\<lfloor>x\<rfloor> \<le> round_half_even x" "round_half_even x \<le> \<lfloor>x\<rfloor> + 1"
  by (simp_all add: round_half_even_def)

lemma round_half_even_of_int [simp]: "round_half_even (of_int n) = n"
  by (simp add: round_half_even_def)

lemma round_half_even_mono:
  assumes "x \<le> y"
  shows "round_half_even x \<le> round_half_even y"
proof (cases "\<lfloor>x\<rfloor> = \<lfloor>y\<rfloor>")
  case True
  with assms show ?thesis
    by (auto simp: round_half_even_def)
next
  case False
  with assms have "\<lfloor>x\<rfloor> + 1 \<le> \<lfloor>y\<rfloor>"
    using floor_mono [OF assms] by linarith
  with round_half_even_between(2) [of x] round_half_even_between(1) [of y] show ?thesis
    by linarith
qed

lemma binade_bounds:
  assumes "0 < x"
  shows "2 powi binade x \<le> x" and "x < 2 powi (binade x + 1)"
proof -
  have "\<lfloor>log 2 x\<rfloor> = binade x"
    using assms by (simp add: binade_def)
  then have "2 powr real_of_int (binade x) \<le> x \<and> x < 2 powr (real_of_int (binade x) + 1)"
    using assms by (simp add: floor_log_eq_powr_iff)
  moreover have "real_of_int (binade x) + 1 = real_of_int (binade x + 1)"
    by simp
  ultimately show "2 powi binade x \<le> x" and "x < 2 powi (binade x + 1)"
    by (simp_all only: powr_real_of_int' [of 2, simplified])
qed

lemma binade_eqI:
  assumes "2 powi k \<le> \<bar>x\<bar>" and "\<bar>x\<bar> < 2 powi (k + 1)"
  shows "binade x = k"
proof -
  have pos: "0 < \<bar>x\<bar>"
    using assms(1) by (smt (verit) zero_less_power_int)
  have "2 powr real_of_int k \<le> \<bar>x\<bar> \<and> \<bar>x\<bar> < 2 powr (real_of_int k + 1)"
    using assms powr_real_of_int' [of 2 k] powr_real_of_int' [of 2 "k + 1"] by simp
  with pos show ?thesis
    by (simp add: binade_def floor_log_eq_powr_iff)
qed

lemma binade_mono:
  assumes "0 < x" and "x \<le> y"
  shows "binade x \<le> binade y"
  using assms by (simp add: binade_def floor_mono)

lemma double_0 [simp]: "double 0 = 0"
  by (simp add: double_def)

lemma double_eval:
  assumes "2 powi k \<le> \<bar>x\<bar>" and "\<bar>x\<bar> < 2 powi (k + 1)"
  shows "double x = of_int (round_half_even (x / 2 powi (k - 52))) * 2 powi (k - 52)"
proof -
  have "x \<noteq> 0"
    using assms(1) by (smt (verit) zero_less_power_int)
  with binade_eqI [OF assms] show ?thesis
    by (simp add: double_def)
qed

lemma double_pos_bounds:
  assumes "0 < x"
  shows "2 powi binade x \<le> double x" and "double x \<le> 2 powi (binade x + 1)"
proof -
  let ?b = "binade x"
  let ?u = "(2::real) powi (?b - 52)"
  have u: "0 < ?u" by simp
  have lo: "2 powi 52 * ?u = 2 powi ?b" and hi: "2 powi 53 * ?u = 2 powi (?b + 1)"
    using power_int_add [of "2::real" 52 "?b - 52"] power_int_add [of "2::real" 53 "?b - 52"]
    by (simp_all add: add.commute)
  from binade_bounds [OF assms] have "2 powi 52 * ?u \<le> x" and "x \<le> 2 powi 53 * ?u"
    by (simp_all only: lo hi)
  with u have "2 powi 52 \<le> x / ?u" and "x / ?u \<le> 2 powi 53"
    by (simp_all add: pos_le_divide_eq pos_divide_le_eq)
  then have "round_half_even (2 powi 52) \<le> round_half_even (x / ?u)"
    and "round_half_even (x / ?u) \<le> round_half_even (2 powi 53)"
    by (simp_all only: round_half_even_mono)
  moreover have "(2::real) powi 52 = of_int (2 ^ 52)" "(2::real) powi 53 = of_int (2 ^ 53)"
    by simp_all
  ultimately have "2 ^ 52 \<le> round_half_even (x / ?u)" and "round_half_even (x / ?u) \<le> 2 ^ 53"
    by (simp_all only: round_half_even_of_int)
  then have "(2::real) powi 52 \<le> of_int (round_half_even (x / ?u))"
    and "of_int (round_half_even (x / ?u)) \<le> (2::real) powi 53"
    by (simp_all add: of_int_le_iff [symmetric] del: of_int_le_iff)
  with u have "2 powi 52 * ?u \<le> of_int (round_half_even (x / ?u)) * ?u"
    and "of_int (round_half_even (x / ?u)) * ?u \<le> 2 powi 53 * ?u"
    by (simp_all only: mult_le_cancel_right_pos)
  then have a: "2 powi ?b \<le> of_int (round_half_even (x / ?u)) * ?u"
    and b: "of_int (round_half_even (x / ?u)) * ?u \<le> 2 powi (?b + 1)"
    by (simp_all only: lo hi)
  have dx: "double x = of_int (round_half_even (x / ?u)) * ?u"
    using assms by (simp add: double_def)
  show "2 powi binade x \<le> double x"
    unfolding dx by (rule a)
  show "double x \<le> 2 powi (binade x + 1)"
    unfolding dx by (rule b)
qed

lemma double_mono_nonneg:
  assumes "0 \<le> x" and "x \<le> y"
  shows "double x \<le> double y"
proof (cases "x = 0")
  case True
  show ?thesis
  proof (cases "y = 0")
    case True
    with \<open>x = 0\<close> show ?thesis by simp
  next
    case False
    with assms True have "0 < y" by simp
    from double_pos_bounds(1) [OF this] have "0 \<le> double y"
      by (smt (verit) zero_less_power_int)
    with True show ?thesis by simp
  qed
next
  case False
  with assms have x: "0 < x" and y: "0 < y" by simp_all
  show ?thesis
  proof (cases "binade x = binade y")
    case True
    let ?u = "(2::real) powi (binade y - 52)"
    have "x / ?u \<le> y / ?u"
      using assms(2) by (simp add: divide_right_mono)
    then have "round_half_even (x / ?u) \<le> round_half_even (y / ?u)"
      by (rule round_half_even_mono)
    then have "real_of_int (round_half_even (x / ?u)) * ?u \<le> real_of_int (round_half_even (y / ?u)) * ?u"
      by (simp add: mult_right_mono)
    with x y True show ?thesis
      by (simp add: double_def)
  next
    case False
    with binade_mono [OF x assms(2)] have "binade x + 1 \<le> binade y"
      by simp
    then have "(2::real) powi (binade x + 1) \<le> 2 powi binade y"
      by (simp add: power_int_increasing)
    with double_pos_bounds(2) [OF x] double_pos_bounds(1) [OF y] show ?thesis
      by linarith
  qed
qed


lemma rounding_double: "rounding double"
  by (simp add: rounding_def double_mono_nonneg double_eval [of 0] round_half_even_def)

lemma roundingD:
  assumes "rounding rnd"
  shows "rnd 0 = 0" and "rnd 1 = 1" and "0 \<le> x \<Longrightarrow> x \<le> y \<Longrightarrow> rnd x \<le> rnd y"
  using assms by (auto simp: rounding_def)

lemma rounding_nonneg: "rounding rnd \<Longrightarrow> 0 \<le> x \<Longrightarrow> 0 \<le> rnd x"
  using roundingD(3) [of rnd 0 x] by (simp add: roundingD(1))

section \<open>The frame animator with rounded arithmetic\<close>

lemma animate_rounded_exact: "animate_rounded (\<lambda>x. x) e d t = animate e d t"
  by (rule ext) (simp add: animate_rounded_def animate_def Let_def)

lemma frame_rounded_exact: "frame_rounded (\<lambda>x. x) t s = frame t s"
  by (simp add: frame_rounded_def frame_def animate_rounded_exact)

lemma animate_rounded_fields:
  assumes "d \<noteq> 0"
    and "start = (case startRef s of None \<Rightarrow> t | Some x \<Rightarrow> if x = 0 then t else x)"
  shows "startRef (animate_rounded rnd e d t s) = Some start"
    and "valueSt (animate_rounded rnd e d t s)
         = Num \<lfloor>rnd (min (rnd (rnd (t - start) / d)) 1 * e)\<rfloor>"
    and "frames (animate_rounded rnd e d t s)
         = (if rnd (rnd (t - start) / d) < 1 then frames s @ [(nextFrame s, e, d)] else frames s)"
  using assms
  by (simp_all add: animate_rounded_def Let_def requestAnimationFrame_def min_less_iff_disj)

lemma frame_rounded_single:
  "frames s = [(h, e, d)] \<Longrightarrow> frame_rounded rnd t s = animate_rounded rnd e d t (s\<lparr>frames := []\<rparr>)"
  by (simp add: frame_rounded_def)

lemma frame_rounded_idle: "frames s = [] \<Longrightarrow> frame_rounded rnd t s = s"
  by (simp add: frame_rounded_def)

lemma frame_rounded_armed:
  assumes "armed e d s" and "0 < d" and "rounding rnd"
  shows "valueSt (frame_rounded rnd t s) = Num 0"
    and "t = 0 \<Longrightarrow> armed e d (frame_rounded rnd t s)"
    and "t \<noteq> 0 \<Longrightarrow> running e d t (frame_rounded rnd t s)"
proof -
  from assms(1) obtain h where f: "frames s = [(h, e, d)]"
    by (auto simp: armed_def)
  from assms(1) have st: "(case startRef (s\<lparr>frames := []\<rparr>) of None \<Rightarrow> t
      | Some x \<Rightarrow> if x = 0 then t else x) = t"
    by (auto simp: armed_def)
  from assms(2) have d: "d \<noteq> 0" by simp
  note af = animate_rounded_fields [OF d st [symmetric], of rnd e]
  note r = roundingD(1) [OF assms(3)]
  show v: "valueSt (frame_rounded rnd t s) = Num 0"
    using af(2) by (simp add: frame_rounded_single [OF f] r)
  show "armed e d (frame_rounded rnd t s)" if "t = 0"
    using af(1,3) v that by (simp add: armed_def frame_rounded_single [OF f] r)
  show "running e d t (frame_rounded rnd t s)" if "t \<noteq> 0"
    using af(1,3) that by (simp add: running_def frame_rounded_single [OF f] r)
qed

lemma frame_rounded_running:
  assumes "running e d st s" and "0 < d"
  shows "valueSt (frame_rounded rnd t s) = Num \<lfloor>rnd (min (rnd (rnd (t - st) / d)) 1 * e)\<rfloor>"
    and "rnd (rnd (t - st) / d) < 1 \<Longrightarrow> running e d st (frame_rounded rnd t s)"
    and "\<not> rnd (rnd (t - st) / d) < 1 \<Longrightarrow> frames (frame_rounded rnd t s) = []"
proof -
  from assms(1) obtain h where f: "frames s = [(h, e, d)]"
    by (auto simp: running_def)
  from assms(1) have st: "(case startRef (s\<lparr>frames := []\<rparr>) of None \<Rightarrow> t
      | Some x \<Rightarrow> if x = 0 then t else x) = st"
    by (auto simp: running_def)
  from assms(2) have d: "d \<noteq> 0" by simp
  note af = animate_rounded_fields [OF d st [symmetric], of rnd e]
  show "valueSt (frame_rounded rnd t s) = Num \<lfloor>rnd (min (rnd (rnd (t - st) / d)) 1 * e)\<rfloor>"
    using af by (simp add: frame_rounded_single [OF f])
  show "running e d st (frame_rounded rnd t s)" if "rnd (rnd (t - st) / d) < 1"
    using af that assms(1) by (simp add: running_def frame_rounded_single [OF f])
  show "frames (frame_rounded rnd t s) = []" if "\<not> rnd (rnd (t - st) / d) < 1"
    using af that by (simp add: frame_rounded_single [OF f])
qed

lemma reported_rounded_idle:
  "frames s = [] \<Longrightarrow> reported_rounded rnd s ts = replicate (length ts) (valueSt s)"
  by (induction ts) (simp_all add: frame_rounded_idle)

lemma quotient_mono:
  assumes "rounding rnd" and "0 < d" and "st \<le> t" and "t \<le> u"
  shows "rnd (rnd (t - st) / d) \<le> rnd (rnd (u - st) / d)"
proof -
  from assms(3,4) have "rnd (t - st) \<le> rnd (u - st)"
    by (intro roundingD(3) [OF assms(1)]) simp_all
  with assms(2) have "rnd (t - st) / d \<le> rnd (u - st) / d"
    by (simp add: divide_right_mono)
  moreover from assms(2,3) have "0 \<le> rnd (t - st) / d"
    by (simp add: rounding_nonneg [OF assms(1)])
  ultimately show ?thesis
    by (intro roundingD(3) [OF assms(1)])
qed

lemma rounded_value_mono:
  assumes "rounding rnd" and "0 \<le> e" and "0 < d" and "st \<le> t" and "t \<le> u"
  shows "\<lfloor>rnd (min (rnd (rnd (t - st) / d)) 1 * e)\<rfloor> \<le> \<lfloor>rnd (min (rnd (rnd (u - st) / d)) 1 * e)\<rfloor>"
proof -
  let ?q = "\<lambda>t. rnd (rnd (t - st) / d)"
  from quotient_mono [OF assms(1,3,4,5)] have "min (?q t) 1 \<le> min (?q u) 1"
    by (simp add: min_le_iff_disj)
  with assms(2) have le: "min (?q t) 1 * e \<le> min (?q u) 1 * e"
    by (simp add: mult_right_mono)
  from assms(3,4) have "0 \<le> rnd (t - st) / d"
    by (simp add: rounding_nonneg [OF assms(1)])
  then have "0 \<le> ?q t"
    by (rule rounding_nonneg [OF assms(1)])
  with assms(2) have "0 \<le> min (?q t) 1 * e"
    by simp
  with le have "rnd (min (?q t) 1 * e) \<le> rnd (min (?q u) 1 * e)"
    by (intro roundingD(3) [OF assms(1)])
  then show ?thesis
    by (rule floor_mono)
qed

lemma reported_rounded_running:
  "running e d st s \<Longrightarrow> rounding rnd \<Longrightarrow> 0 < d \<Longrightarrow> sorted ts \<Longrightarrow> \<forall>t\<in>set ts. st \<le> t \<Longrightarrow>
   reported_rounded rnd s ts = map (\<lambda>t. Num \<lfloor>rnd (min (rnd (rnd (t - st) / d)) 1 * e)\<rfloor>) ts"
proof (induction ts arbitrary: s)
  case Nil
  show ?case by simp
next
  case (Cons t ts)
  note fr = frame_rounded_running [OF Cons.prems(1,3), of rnd t]
  from Cons.prems(4) have sorted: "sorted ts" and le: "\<forall>u\<in>set ts. t \<le> u"
    by simp_all
  from Cons.prems(5) have after: "\<forall>u\<in>set ts. st \<le> u" and t: "st \<le> t"
    by simp_all
  show ?case
  proof (cases "rnd (rnd (t - st) / d) < 1")
    case True
    from Cons.IH [OF fr(2) [OF True] Cons.prems(2,3) sorted after] fr(1) show ?thesis
      by simp
  next
    case False
    have late: "min (rnd (rnd (u - st) / d)) 1 = 1" if "u \<in> set ts" for u
    proof -
      from that le have "t \<le> u" by simp
      from quotient_mono [OF Cons.prems(2,3) t this] False show ?thesis
        by simp
    qed
    from False have now: "min (rnd (rnd (t - st) / d)) 1 = 1" by simp
    have "reported_rounded rnd (frame_rounded rnd t s) ts = replicate (length ts) (Num \<lfloor>rnd (1 * e)\<rfloor>)"
      using reported_rounded_idle [OF fr(3) [OF False], of rnd ts] fr(1) now by simp
    also have "\<dots> = map (\<lambda>u. Num \<lfloor>rnd (min (rnd (rnd (u - st) / d)) 1 * e)\<rfloor>) ts"
      by (simp add: map_replicate_const [symmetric] late cong: map_cong)
    finally show ?thesis
      using fr(1) by simp
  qed
qed

lemma rounded_values_sorted:
  assumes "rounding rnd" and "0 \<le> e" and "0 < d" and "sorted ts" and "\<forall>t\<in>set ts. st \<le> t"
  shows "sorted_wrt js_le (map (\<lambda>t. Num \<lfloor>rnd (min (rnd (rnd (t - st) / d)) 1 * e)\<rfloor>) ts)"
proof -
  have "sorted_wrt (\<lambda>t u. \<lfloor>rnd (min (rnd (rnd (t - st) / d)) 1 * e)\<rfloor>
      \<le> \<lfloor>rnd (min (rnd (rnd (u - st) / d)) 1 * e)\<rfloor>) ts"
  proof (rule sorted_wrt_mono_rel [of ts "(\<le>)"])
    fix t u
    assume "t \<in> set ts" and "t \<le> u"
    with assms(5) have "st \<le> t" by simp
    from rounded_value_mono [OF assms(1,2,3) this \<open>t \<le> u\<close>]
    show "\<lfloor>rnd (min (rnd (rnd (t - st) / d)) 1 * e)\<rfloor> \<le> \<lfloor>rnd (min (rnd (rnd (u - st) / d)) 1 * e)\<rfloor>" .
  next
    from assms(4) show "sorted_wrt (\<le>) ts" .
  qed
  then show ?thesis
    by (simp add: sorted_wrt_map)
qed

lemma reported_rounded_armed:
  "armed e d s \<Longrightarrow> rounding rnd \<Longrightarrow> 0 \<le> e \<Longrightarrow> 0 < d \<Longrightarrow> sorted ts \<Longrightarrow>
   sorted_wrt js_le (Num 0 # reported_rounded rnd s ts)
   \<and> list_all js_int (reported_rounded rnd s ts)"
proof (induction ts arbitrary: s)
  case Nil
  show ?case by simp
next
  case (Cons t ts)
  from Cons.prems(5) have sorted: "sorted ts" and le: "\<forall>u\<in>set ts. t \<le> u"
    by simp_all
  note fa = frame_rounded_armed [OF Cons.prems(1,4,2), of t]
  show ?case
  proof (cases "t = 0")
    case True
    from Cons.IH [OF fa(2) [OF True] Cons.prems(2,3,4) sorted] fa(1) show ?thesis
      by simp
  next
    case False
    let ?f = "\<lambda>u. Num \<lfloor>rnd (min (rnd (rnd (u - t) / d)) 1 * e)\<rfloor>"
    have r: "reported_rounded rnd (frame_rounded rnd t s) ts = map ?f ts"
      by (rule reported_rounded_running [OF fa(3) [OF False] Cons.prems(2,4) sorted le])
    have "?f t = Num 0"
      by (simp add: roundingD(1) [OF Cons.prems(2)])
    with r fa(1) have eq: "reported_rounded rnd s (t # ts) = map ?f (t # ts)"
      by simp
    have s1: "sorted_wrt js_le (map ?f (t # ts))"
      by (rule rounded_values_sorted [OF Cons.prems(2,3,4,5)]) (use le in simp)
    have "sorted_wrt js_le (Num 0 # Num 0 # map ?f ts)"
      using s1 \<open>?f t = Num 0\<close> by simp
    moreover have "list_all js_int (map ?f (t # ts))"
      by (simp add: list_all_iff)
    ultimately show ?thesis
      unfolding eq using \<open>?f t = Num 0\<close> by simp
  qed
qed

lemma reported_rounded_Nil_iff [simp]: "reported_rounded rnd s ts = [] \<longleftrightarrow> ts = []"
  by (cases ts) simp_all

lemma reported_rounded_triggered:
  assumes "rounding rnd" and "0 < d" and "sorted (t0 # ts)" and "t0 \<noteq> 0"
  shows "reported_rounded rnd (triggered e d) (t0 # ts)
         = map (\<lambda>t. Num \<lfloor>rnd (min (rnd (rnd (t - t0) / d)) 1 * e)\<rfloor>) (t0 # ts)"
proof -
  note fa = frame_rounded_armed [OF triggered_armed [of e d] assms(2,1), of t0]
  from assms(3) have s: "sorted ts" and le: "\<forall>u\<in>set ts. t0 \<le> u"
    by simp_all
  from reported_rounded_running [OF fa(3) [OF assms(4)] assms(1,2) s le] fa(1) show ?thesis
    by (simp add: roundingD(1) [OF assms(1)])
qed

lemma rounded_value_final:
  assumes "rounding rnd" and "rnd d = d" and "rnd e = e" and "0 < d" and "d \<le> t - t0"
  shows "\<lfloor>rnd (min (rnd (rnd (t - t0) / d)) 1 * e)\<rfloor> = \<lfloor>e\<rfloor>"
proof -
  from assms(4,5) have "rnd d \<le> rnd (t - t0)"
    by (intro roundingD(3) [OF assms(1)]) simp_all
  with assms(2,4) have "1 \<le> rnd (t - t0) / d"
    by (simp add: le_divide_eq)
  then have "rnd 1 \<le> rnd (rnd (t - t0) / d)"
    by (intro roundingD(3) [OF assms(1)]) simp_all
  then have "min (rnd (rnd (t - t0) / d)) 1 = 1"
    by (simp add: roundingD(2) [OF assms(1)])
  with assms(3) show ?thesis
    by simp
qed


lemma double_1400: "double 1400 = 1400"
  by (simp add: double_eval [of 10] round_half_even_def)

lemma double_2000: "double 2000 = 2000"
  by (simp add: double_eval [of 10] round_half_even_def)

lemma double_1000: "double 1000 = 1000"
  by (simp add: double_eval [of 9] round_half_even_def)

lemma double_350: "double 350 = 350"
  by (simp add: double_eval [of 8] round_half_even_def)

lemma double_1: "double 1 = 1"
  by (simp add: double_eval [of 0] round_half_even_def)

lemma double_5_2: "double (5 / 2) = 5 / 2"
  by (simp add: double_eval [of 1] round_half_even_def)

lemma double_7_10: "double (7 / 10) = 3152519739159347 / 4503599627370496"
  by (simp add: double_eval [of "-1"] round_half_even_def)

lemma value_at_0: "rounding rnd \<Longrightarrow> \<lfloor>rnd (min (rnd (rnd (t - t) / d)) 1 * e)\<rfloor> = 0"
  by (simp add: roundingD(1))

lemma value_at_1400: "\<lfloor>double (min (double (double (1500 - 100) / 2000)) 1 * 350)\<rfloor> = 244"
proof -
  have q: "double (double (1500 - 100) / 2000) = 3152519739159347 / 4503599627370496"
    by (simp add: double_1400 double_7_10)
  have m: "min (3152519739159347 / 4503599627370496) (1::real)
      = 3152519739159347 / 4503599627370496"
    by simp
  have p: "double (3152519739159347 / 4503599627370496 * 350)
      = 8620171161763839 / 35184372088832"
    by (simp add: double_eval [of 7] round_half_even_def)
  show ?thesis
    unfolding q m p by simp
qed

lemma value_at_2000: "\<lfloor>double (min (double (double (2100 - 100) / 2000)) 1 * 350)\<rfloor> = 350"
  by (simp add: double_2000 double_1 double_350)

lemma value_at_1000: "\<lfloor>double (min (double (double (1001 - 1) / 1000)) 1 * (5 / 2))\<rfloor> = 2"
  by (simp add: double_1000 double_1 double_5_2)

text \<open>
  Two runs in the arithmetic of the source. The sequence of reported values ends at the
  floor of the target: with target 2.5 and duration 1000 the values at elapsed times 0
  and 1000 are 0 and 2. And the values are those of the formula in double arithmetic, not
  over the reals: with target 350 and duration 2000 the value at elapsed time 1400 is
  244, since the quotient rounds to a double below 0.7, where the formula over the reals
  gives 245.
\<close>

theorem frame_animation_monotone_counterexample:
  "last (reported_rounded double (triggered (5 / 2) 1000) [1, 1001]) = Num 2
   \<and> real_of_int 2 \<noteq> 5 / 2
   \<and> reported_rounded double (triggered 350 2000) [100, 1500] = [Num 0, Num 244]
   \<and> \<lfloor>min ((1500 - 100) / 2000) 1 * (350 :: real)\<rfloor> = 245"
proof -
  have "reported_rounded double (triggered (5 / 2) 1000) [1, 1001] = [Num 0, Num 2]"
    using reported_rounded_triggered [OF rounding_double, of 1000 1 "[1001]" "5 / 2"]
    by (simp only: list.map value_at_0 [OF rounding_double] value_at_1000) simp
  moreover have "reported_rounded double (triggered 350 2000) [100, 1500] = [Num 0, Num 244]"
    using reported_rounded_triggered [OF rounding_double, of 2000 100 "[1500]" 350]
    by (simp only: list.map value_at_0 [OF rounding_double] value_at_1400) simp
  ultimately show ?thesis
    by simp
qed

text \<open>
  C7, as the code has it. The arithmetic is any rounding \<open>rnd\<close> that is exact at 0 and 1
  and monotone on the non-negative numbers, \<^verbatim>\<open>endValue\<close> \<open>\<ge> 0\<close> and
  \<^verbatim>\<open>duration\<close> \<open>> 0\<close> being numbers it represents. While \<^verbatim>\<open>trigger\<close> stays true, the
  values reported after successive display refreshes with non-decreasing timestamps are
  integers, never decrease and start at 0. When the first timestamp is nonzero (so that
  it is latched as the start), each value is \<^verbatim>\<open>Math.floor(Math.min(elapsed / duration, 1) * endValue)\<close>
  as that arithmetic computes it, the subtraction, the division and the multiplication
  each rounded; and once the elapsed time reaches \<^verbatim>\<open>duration\<close> the sequence ends at the
  floor of \<^verbatim>\<open>endValue\<close>, which is \<^verbatim>\<open>endValue\<close> itself when that is an integer.
\<close>

theorem frame_animation_monotone:
  "rounding rnd \<Longrightarrow> rnd e = e \<Longrightarrow> rnd d = d \<Longrightarrow> 0 \<le> e \<Longrightarrow> 0 < d \<Longrightarrow> sorted ts \<Longrightarrow>
   list_all js_int (reported_rounded rnd (triggered e d) ts)
   \<and> sorted_wrt js_le (reported_rounded rnd (triggered e d) ts)
   \<and> (ts \<noteq> [] \<longrightarrow> hd (reported_rounded rnd (triggered e d) ts) = Num 0)
   \<and> (ts \<noteq> [] \<and> hd ts \<noteq> 0 \<longrightarrow>
        reported_rounded rnd (triggered e d) ts
        = map (\<lambda>t. Num \<lfloor>rnd (min (rnd (rnd (t - hd ts) / d)) 1 * e)\<rfloor>) ts)
   \<and> (ts \<noteq> [] \<and> hd ts \<noteq> 0 \<and> d \<le> last ts - hd ts \<longrightarrow>
        last (reported_rounded rnd (triggered e d) ts) = Num \<lfloor>e\<rfloor>)"
proof -
  assume r: "rounding rnd" and re: "rnd e = e" and rd: "rnd d = d"
    and e: "0 \<le> e" and d: "0 < d" and s: "sorted ts"
  from reported_rounded_armed [OF triggered_armed r e d s]
  have 1: "list_all js_int (reported_rounded rnd (triggered e d) ts)"
    and 2: "sorted_wrt js_le (reported_rounded rnd (triggered e d) ts)"
    by simp_all
  have 3: "hd (reported_rounded rnd (triggered e d) ts) = Num 0" if "ts \<noteq> []"
    using that frame_rounded_armed(1) [OF triggered_armed [of e d] d r] by (cases ts) simp_all
  have 4: "reported_rounded rnd (triggered e d) ts
      = map (\<lambda>t. Num \<lfloor>rnd (min (rnd (rnd (t - hd ts) / d)) 1 * e)\<rfloor>) ts"
    if "ts \<noteq> []" "hd ts \<noteq> 0"
  proof -
    from that(1) obtain t0 ts0 where ts: "ts = t0 # ts0"
      by (cases ts) auto
    with that(2) s reported_rounded_triggered [OF r d, of t0 ts0 e] show ?thesis
      by simp
  qed
  have 5: "last (reported_rounded rnd (triggered e d) ts) = Num \<lfloor>e\<rfloor>"
    if "ts \<noteq> []" "hd ts \<noteq> 0" "d \<le> last ts - hd ts"
  proof -
    have "last (map (\<lambda>t. Num \<lfloor>rnd (min (rnd (rnd (t - hd ts) / d)) 1 * e)\<rfloor>) ts)
        = Num \<lfloor>rnd (min (rnd (rnd (last ts - hd ts) / d)) 1 * e)\<rfloor>"
      using that(1) by (simp add: last_map)
    with 4 [OF that(1,2)] rounded_value_final [OF r rd re d that(3)] show ?thesis
      by simp
  qed
  from 1 2 3 4 5 show ?thesis
    by blast
qed

theorem frame_animation_monotone_witness:
  "rounding double \<and> double 350 = 350 \<and> double 2000 = 2000
   \<and> (0::real) \<le> 350 \<and> (0::real) < 2000 \<and> sorted [100, 1500, 2100 :: real]
   \<and> [100, 1500, 2100 :: real] \<noteq> [] \<and> hd [100, 1500, 2100 :: real] \<noteq> 0
   \<and> (2000::real) \<le> last [100, 1500, 2100] - hd [100, 1500, 2100]
   \<and> reported_rounded double (triggered 350 2000) [100, 1500, 2100] = [Num 0, Num 244, Num 350]
   \<and> sorted_wrt js_le [Num 0, Num 244, Num 350]
   \<and> list_all js_int [Num 0, Num 244, Num 350]
   \<and> hd [Num 0, Num 244, Num 350] = Num 0
   \<and> last [Num 0, Num 244, Num 350] = Num \<lfloor>350 :: real\<rfloor>"
proof -
  note t = frame_animation_monotone [OF rounding_double double_350 double_2000,
      of "[100, 1500, 2100]"]
  have "reported_rounded double (triggered 350 2000) [100, 1500, 2100]
      = map (\<lambda>t. Num \<lfloor>double (min (double (double (t - 100) / 2000)) 1 * 350)\<rfloor>) [100, 1500, 2100]"
    using t by simp
  then have "reported_rounded double (triggered 350 2000) [100, 1500, 2100]
      = [Num 0, Num 244, Num 350]"
    by (simp only: list.map value_at_0 [OF rounding_double] value_at_1400 value_at_2000)
  with rounding_double double_350 double_2000 show ?thesis
    by simp
qed

text \<open>
  C9. When \<^verbatim>\<open>trigger\<close> turns to false in the middle of a run, the reset branch sets the
  reported value to 0 and clears the start timestamp, but the animator does not return to
  the Idle state: the request made by the last callback is still waiting (the cleanup
  cancels the first request only). At the next refresh its callback latches a new start
  timestamp, and 1000 ms later the reported value is 175 although \<^verbatim>\<open>trigger\<close> is
  false. A turn to false before the first refresh does return to Idle: there the cleanup
  cancels the only request.
\<close>

theorem frame_animation_reset_not_idle:
  "valueSt (rerender 350 2000 False (frame 1100 (frame 100 (triggered 350 2000)))) = Num 0
   \<and> startRef (rerender 350 2000 False (frame 1100 (frame 100 (triggered 350 2000)))) = None
   \<and> frames (rerender 350 2000 False (frame 1100 (frame 100 (triggered 350 2000))))
       = [(3, 350, 2000)]
   \<and> \<not> idle (rerender 350 2000 False (frame 1100 (frame 100 (triggered 350 2000))))
   \<and> startRef (frame 1200
         (rerender 350 2000 False (frame 1100 (frame 100 (triggered 350 2000))))) = Some 1200
   \<and> valueSt (run_frames [1200, 2200]
         (rerender 350 2000 False (frame 1100 (frame 100 (triggered 350 2000))))) = Num 175
   \<and> idle (rerender 350 2000 False (triggered 350 2000))"
  by (simp add: idle_def triggered_def rerender_def mount_def useFrameAnimation_effect_def
      cleanup_def requestAnimationFrame_def cancelAnimationFrame_def useFrameAnimation_init_def
      run_frames_def frame_def animate_def Let_def)

end
